theory Spec2Isabelle
  imports Main "HOL-Library.Sublist"
begin

section \<open>The braille auto-correct trie of \<^verbatim>\<open>src/App.jsx\<close>\<close>

text \<open>
  The embedding follows the classes \<^verbatim>\<open>TrieNode\<close> and \<^verbatim>\<open>Trie\<close> of the source.
  JavaScript numbers are modelled as \<^typ>\<open>int\<close> (every number computed here is a small
  integer), dictionary words and patterns as \<^typ>\<open>string\<close>, and the in-place mutation of
  the trie and of the \<^verbatim>\<open>suggestions\<close> array as explicit state passing. A symbol, which
  \<^verbatim>\<open>for (const char of word)\<close> takes from the word one at a time, is a \<^typ>\<open>char\<close>.
  No function of the source raises: the model has no error value.
\<close>

subsection \<open>Data model\<close>

text \<open>
  \<^verbatim>\<open>class TrieNode { constructor() { this.children = {}; this.isEnd = false; } }\<close>

  The object \<^verbatim>\<open>children\<close> is an association list holding the own properties in the
  order in which they were created.
\<close>

datatype TrieNode = TrieNode (children: "(char \<times> TrieNode) list") (isEnd: bool)

definition new_TrieNode :: TrieNode where
  "new_TrieNode = TrieNode [] False"

text \<open>
  \<^verbatim>\<open>class Trie { constructor() { this.root = new TrieNode(); this.deletionCost = 3; } }\<close>
\<close>

record Trie =
  root :: TrieNode
  deletionCost :: int

definition new_Trie :: Trie where
  "new_Trie = \<lparr>root = new_TrieNode, deletionCost = 3\<rparr>"

text \<open>The objects \<^verbatim>\<open>{ word: currentWord, cost: totalCost }\<close> pushed by the search.\<close>

record Suggestion =
  word :: string
  cost :: int

text \<open>The table \<^verbatim>\<open>letterToPattern\<close>; a missing key reads as \<^verbatim>\<open>undefined\<close>.\<close>

definition letterToPattern_table :: "(char \<times> string) list" where
  "letterToPattern_table =
     [(CHR ''a'', ''100000''), (CHR ''b'', ''110000''), (CHR ''c'', ''100100''), (CHR ''d'', ''100110''),
      (CHR ''e'', ''100010''), (CHR ''f'', ''110100''), (CHR ''g'', ''110110''), (CHR ''h'', ''110010''),
      (CHR ''i'', ''010100''), (CHR ''j'', ''010110''), (CHR ''k'', ''101000''), (CHR ''l'', ''111000''),
      (CHR ''m'', ''101100''), (CHR ''n'', ''101110''), (CHR ''o'', ''101010''), (CHR ''p'', ''111100''),
      (CHR ''q'', ''111110''), (CHR ''r'', ''111010''), (CHR ''s'', ''011100''), (CHR ''t'', ''011110''),
      (CHR ''u'', ''101001''), (CHR ''v'', ''111001''), (CHR ''w'', ''010111''), (CHR ''x'', ''101101''),
      (CHR ''y'', ''101111''), (CHR ''z'', ''101011'')]"

definition letterToPattern :: "char \<Rightarrow> string option" where
  "letterToPattern c = map_of letterToPattern_table c"

subsection \<open>JavaScript built-ins used by the source\<close>

text \<open>
  \<^verbatim>\<open>Object.entries(obj)\<close> lists the own properties whose keys are array indices first,
  in ascending numeric order, and the remaining string keys after them in creation order.
  The keys of \<^verbatim>\<open>children\<close> are single symbols, so the array indices among them are the
  ten digits.
\<close>

definition is_index_key :: "char \<Rightarrow> bool" where
  "is_index_key c = (c \<in> set ''0123456789'')"

definition entries :: "(char \<times> 'a) list \<Rightarrow> (char \<times> 'a) list" where
  "entries kvs =
     sort_key (\<lambda>kv. (of_char (fst kv) :: nat)) (filter (\<lambda>kv. is_index_key (fst kv)) kvs)
     @ filter (\<lambda>kv. \<not> is_index_key (fst kv)) kvs"

text \<open>\<^verbatim>\<open>s[i]\<close> on a string: the character at \<open>i\<close>, or \<^verbatim>\<open>undefined\<close> out of range.\<close>

definition char_at :: "string \<Rightarrow> nat \<Rightarrow> char option" where
  "char_at s i = (if i < length s then Some (s ! i) else None)"

text \<open>
  \<^verbatim>\<open>xs.slice(0, end)\<close>: a negative \<open>end\<close> counts from the end of the array, and the
  result is clamped to the array.
\<close>

definition slice0 :: "'a list \<Rightarrow> int \<Rightarrow> 'a list" where
  "slice0 xs end =
     (let len = int (length xs);
          final = (if end < 0 then max (len + end) 0 else min end len)
      in take (nat final) xs)"

text \<open>
  \<^verbatim>\<open>xs.sort((a, b) => a.cost - b.cost)\<close>: \<^verbatim>\<open>Array.prototype.sort\<close> is a stable sort,
  here ascending by the field \<^verbatim>\<open>cost\<close>; \<^const>\<open>sort_key\<close> is the stable insertion sort.
\<close>

definition sort_by_cost :: "Suggestion list \<Rightarrow> Suggestion list" where
  "sort_by_cost suggestions = sort_key cost suggestions"

subsection \<open>\<^verbatim>\<open>Trie.insert\<close>\<close>

text \<open>
  The assignment to the child that \<^verbatim>\<open>node = node.children[char]\<close> walks into: the
  property keeps its place in the object.
\<close>

fun set_child :: "char \<Rightarrow> TrieNode \<Rightarrow> (char \<times> TrieNode) list \<Rightarrow> (char \<times> TrieNode) list" where
  "set_child c v [] = []"
| "set_child c v ((k, x) # kvs) = (if k = c then (k, v) # kvs else (k, x) # set_child c v kvs)"

text \<open>
  \<^verbatim>\<open>
  insert(word) {
    let node = this.root;
    for (const char of word) {
      if (!node.children[char]) { node.children[char] = new TrieNode(); }
      node = node.children[char];
    }
    node.isEnd = true;
  }
  \<close>
  The loop walks down one path and mutates the node it ends at; the model rebuilds the
  nodes of that path.
\<close>

fun insert_node :: "string \<Rightarrow> TrieNode \<Rightarrow> TrieNode" where
  "insert_node [] node = TrieNode (children node) True"
| "insert_node (char # rest) node =
     (case map_of (children node) char of
        None \<Rightarrow>
          TrieNode (children node @ [(char, insert_node rest new_TrieNode)]) (isEnd node)
      | Some childNode \<Rightarrow>
          TrieNode (set_child char (insert_node rest childNode) (children node)) (isEnd node))"

definition insert_word :: "string \<Rightarrow> Trie \<Rightarrow> Trie" where
  "insert_word w T = T\<lparr>root := insert_node w (root T)\<rparr>"

text \<open>A trie built by a sequence of \<^verbatim>\<open>insert\<close> calls on a fresh \<^verbatim>\<open>new Trie()\<close>.\<close>

definition build :: "string list \<Rightarrow> Trie" where
  "build ws = foldl (\<lambda>T w. insert_word w T) new_Trie ws"

subsection \<open>\<^verbatim>\<open>Trie._hammingDistance\<close>\<close>

definition hammingDistance :: "string \<Rightarrow> string \<Rightarrow> int" where
  "hammingDistance pattern1 pattern2 =
     fold (\<lambda>i distance. if char_at pattern1 i \<noteq> char_at pattern2 i then distance + 1 else distance)
       [0..<6] 0"

subsection \<open>\<^verbatim>\<open>Trie._search\<close> and \<^verbatim>\<open>Trie.search\<close>\<close>

text \<open>
  The row of a child (lines 86 to 95). The array \<^verbatim>\<open>newDp\<close> starts with one element and
  the loop assigns \<^verbatim>\<open>newDp[j]\<close> for \<open>j = 1, \<dots>, n\<close> in turn, each time one past its
  last element, which appends. The row \<^verbatim>\<open>dp\<close> has \<open>n + 1\<close> elements wherever
  \<^verbatim>\<open>search\<close> reaches this code (lemma \<open>length_newDp\<close> below), so its reads are in range.
\<close>

definition newDp_step :: "int \<Rightarrow> string \<Rightarrow> int list \<Rightarrow> string list \<Rightarrow> nat \<Rightarrow> int list \<Rightarrow> int list" where
  "newDp_step dc pattern dp inputPatterns j newDp =
     (let hammingCost = hammingDistance pattern (inputPatterns ! (j - 1))
      in newDp @ [min (dp ! j + dc) (min (newDp ! (j - 1) + dc) (dp ! (j - 1) + hammingCost))])"

definition newDp :: "int \<Rightarrow> string \<Rightarrow> int list \<Rightarrow> string list \<Rightarrow> int list" where
  "newDp dc pattern dp inputPatterns =
     fold (newDp_step dc pattern dp inputPatterns) [1..<Suc (length inputPatterns)] [dp ! 0 + dc]"

text \<open>
  \<^verbatim>\<open>Math.min(...dp.map((cost, j) => cost + this.deletionCost * (n - j)))\<close>; the row is
  never empty.
\<close>

definition totalCost :: "int \<Rightarrow> nat \<Rightarrow> int list \<Rightarrow> int" where
  "totalCost dc n dp =
     min_list (map (\<lambda>(cost, j). cost + dc * (int n - int j)) (zip dp [0..<length dp]))"

text \<open>
  \<^verbatim>\<open>_search(node, currentWord, dp, inputPatterns, suggestions)\<close>: the array
  \<^verbatim>\<open>suggestions\<close> is threaded through the traversal and returned; \<^verbatim>\<open>continue\<close> leaves
  it as it is.
\<close>

function search_node ::
  "Trie \<Rightarrow> TrieNode \<Rightarrow> string \<Rightarrow> int list \<Rightarrow> string list \<Rightarrow> Suggestion list \<Rightarrow> Suggestion list" where
  "search_node T node currentWord dp inputPatterns suggestions =
     fold (\<lambda>kv suggestions.
             case letterToPattern (fst kv) of
               None \<Rightarrow> suggestions
             | Some pattern \<Rightarrow>
                 search_node T (snd kv) (currentWord @ [fst kv])
                   (newDp (deletionCost T) pattern dp inputPatterns) inputPatterns suggestions)
       (entries (children node))
       (if isEnd node
        then suggestions @ [\<lparr>word = currentWord,
                             cost = totalCost (deletionCost T) (length inputPatterns) dp\<rparr>]
        else suggestions)"
  by pat_completeness auto
termination
proof (relation "measure (\<lambda>(T, node, currentWord, dp, inputPatterns, suggestions). size node)")
  show "wf (measure (\<lambda>(T, node, currentWord, dp, inputPatterns, suggestions). size node))"
    by simp
next
  fix T :: Trie and node :: TrieNode and currentWord :: string and dp :: "int list"
    and inputPatterns :: "string list" and suggestions :: "Suggestion list"
    and kv :: "char \<times> TrieNode" and acc :: "Suggestion list" and pattern :: string
  have below: "size (snd x) < Suc (size_list (size_prod (\<lambda>_. 0) size) kvs)"
    if "x \<in> set kvs" for x :: "char \<times> TrieNode" and kvs
    using that by (induction kvs) auto
  assume "kv \<in> set (entries (children node))"
  then have "kv \<in> set (children node)"
    by (auto simp: entries_def)
  then have "size (snd kv) < size node"
    by (cases node) (auto dest: below)
  then show "((T, snd kv, currentWord @ [fst kv], newDp (deletionCost T) pattern dp inputPatterns,
               inputPatterns, acc),
              (T, node, currentWord, dp, inputPatterns, suggestions))
             \<in> measure (\<lambda>(T, node, currentWord, dp, inputPatterns, suggestions). size node)"
    by simp
qed

text \<open>
  \<^verbatim>\<open>
  search(inputPatterns, maxSuggestions = 5) {
    const n = inputPatterns.length;
    if (n === 0) return [];
    const initialDp = Array(n + 1).fill().map((_, i) => i * this.deletionCost);
    const suggestions = [];
    this._search(this.root, '', initialDp, inputPatterns, suggestions);
    return suggestions.sort((a, b) => a.cost - b.cost).slice(0, maxSuggestions);
  }
  \<close>
\<close>

definition initialDp :: "Trie \<Rightarrow> nat \<Rightarrow> int list" where
  "initialDp T n = map (\<lambda>i. int i * deletionCost T) [0..<n + 1]"

definition search :: "Trie \<Rightarrow> string list \<Rightarrow> int \<Rightarrow> Suggestion list" where
  "search T inputPatterns maxSuggestions =
     (let n = length inputPatterns
      in if n = 0 then []
         else slice0 (sort_by_cost (search_node T (root T) [] (initialDp T n) inputPatterns []))
                maxSuggestions)"

text \<open>The call \<^verbatim>\<open>search(inputPatterns)\<close> with the default \<^verbatim>\<open>maxSuggestions = 5\<close>.\<close>

definition search_default :: "Trie \<Rightarrow> string list \<Rightarrow> Suggestion list" where
  "search_default T inputPatterns = search T inputPatterns 5"

subsection \<open>Notions used to state the properties\<close>

text \<open>The records pushed by the traversal that \<^verbatim>\<open>search\<close> starts, in the order of the pushes.\<close>

definition emitted :: "Trie \<Rightarrow> string list \<Rightarrow> Suggestion list" where
  "emitted T inputPatterns =
     search_node T (root T) [] (initialDp T (length inputPatterns)) inputPatterns []"

text \<open>The node at the end of a path of symbols, read as \<^verbatim>\<open>node.children[char]\<close> reads it.\<close>

fun node_at :: "TrieNode \<Rightarrow> string \<Rightarrow> TrieNode option" where
  "node_at node [] = Some node"
| "node_at node (c # cs) =
     (case map_of (children node) c of None \<Rightarrow> None | Some childNode \<Rightarrow> node_at childNode cs)"

definition is_word :: "TrieNode \<Rightarrow> string \<Rightarrow> bool" where
  "is_word node w = (case node_at node w of None \<Rightarrow> False | Some nd \<Rightarrow> isEnd nd)"

text \<open>Every symbol of the word has a pattern in \<^verbatim>\<open>letterToPattern\<close>.\<close>

definition known :: "string \<Rightarrow> bool" where
  "known w = list_all (\<lambda>c. letterToPattern c \<noteq> None) w"

text \<open>
  The row that the traversal hands to the node at the end of a path whose symbols all have
  patterns, starting from the row \<open>dp\<close> of the node the path starts at.
\<close>

fun row_from :: "int \<Rightarrow> string list \<Rightarrow> int list \<Rightarrow> string \<Rightarrow> int list" where
  "row_from dc inputPatterns dp [] = dp"
| "row_from dc inputPatterns dp (c # cs) =
     (case letterToPattern c of
        None \<Rightarrow> dp
      | Some pattern \<Rightarrow> row_from dc inputPatterns (newDp dc pattern dp inputPatterns) cs)"

text \<open>
  A JavaScript object holds each key once. The association lists of the model are
  restricted to those that do, at every node.
\<close>

function distinct_keys :: "TrieNode \<Rightarrow> bool" where
  "distinct_keys (TrieNode kvs e) =
     (distinct (map fst kvs) \<and> list_all (\<lambda>kv. distinct_keys (snd kv)) kvs)"
  by pat_completeness auto
termination
proof (relation "measure size")
  show "wf (measure (size :: TrieNode \<Rightarrow> nat))"
    by simp
next
  fix kvs :: "(char \<times> TrieNode) list" and e :: bool and kv :: "char \<times> TrieNode"
  have below: "size (snd x) < Suc (size_list (size_prod (\<lambda>_. 0) size) xs)"
    if "x \<in> set xs" for x :: "char \<times> TrieNode" and xs
    using that by (induction xs) auto
  assume "kv \<in> set kvs"
  then show "(snd kv, TrieNode kvs e) \<in> measure size"
    by (auto dest: below)
qed

text \<open>
  The two parts of what one call of \<^verbatim>\<open>_search\<close> pushes: the record of the node itself,
  and the records pushed by the recursive call for one entry of \<^verbatim>\<open>children\<close>.
\<close>

definition own_record :: "Trie \<Rightarrow> TrieNode \<Rightarrow> string \<Rightarrow> int list \<Rightarrow> string list \<Rightarrow> Suggestion list" where
  "own_record T node w dp q =
     (if isEnd node then [\<lparr>word = w, cost = totalCost (deletionCost T) (length q) dp\<rparr>] else [])"

definition below_edge :: "Trie \<Rightarrow> string \<Rightarrow> int list \<Rightarrow> string list \<Rightarrow> char \<times> TrieNode \<Rightarrow> Suggestion list" where
  "below_edge T w dp q kv =
     (case letterToPattern (fst kv) of
        None \<Rightarrow> []
      | Some pattern \<Rightarrow>
          search_node T (snd kv) (w @ [fst kv]) (newDp (deletionCost T) pattern dp q) q [])"

text \<open>A query pattern: six characters, each \<open>0\<close> or \<open>1\<close>.\<close>

definition is_pattern :: "string \<Rightarrow> bool" where
  "is_pattern p = (length p = 6 \<and> list_all (\<lambda>b. b = CHR ''0'' \<or> b = CHR ''1'') p)"

text \<open>The array \<^verbatim>\<open>newDp\<close> after the iteration \<open>j = m\<close> of the loop that fills it.\<close>

definition newDp_upto :: "int \<Rightarrow> string \<Rightarrow> int list \<Rightarrow> string list \<Rightarrow> nat \<Rightarrow> int list" where
  "newDp_upto dc pattern dp inputPatterns m =
     fold (newDp_step dc pattern dp inputPatterns) [1..<Suc m] [dp ! 0 + dc]"

section \<open>Properties\<close>

subsection \<open>The traversal as a list of pushes\<close>

declare search_node.simps [simp del]

lemma set_entries: "set (entries kvs) = set kvs"
  by (auto simp: entries_def)

lemma fold_push:
  assumes "\<And>x acc. x \<in> set xs \<Longrightarrow> f x acc = acc @ g x"
  shows "fold f xs acc = acc @ concat (map g xs)"
  using assms by (induction xs arbitrary: acc) simp_all

lemma search_node_push:
  "search_node T node w dp q acc = acc @ search_node T node w dp q []"
proof (induction T node w dp q acc rule: search_node.induct)
  case (1 T node w dp q acc)
  let ?f = "\<lambda>kv s. case letterToPattern (fst kv) of None \<Rightarrow> s
              | Some pattern \<Rightarrow> search_node T (snd kv) (w @ [fst kv])
                  (newDp (deletionCost T) pattern dp q) q s"
  have step: "?f kv s = s @ below_edge T w dp q kv"
    if "kv \<in> set (entries (children node))" for kv s
    using that 1 [of kv _ s] by (auto simp: below_edge_def split: option.splits)
  have "search_node T node w dp q s
          = (if isEnd node then s @ own_record T node w dp q else s)
            @ concat (map (below_edge T w dp q) (entries (children node)))" for s
    by (subst search_node.simps, subst fold_push [where g = "below_edge T w dp q"])
       (auto simp: step own_record_def)
  then show ?case
    by (auto simp: own_record_def)
qed

lemma search_node_unfold:
  "search_node T node w dp q acc
     = acc @ own_record T node w dp q @ concat (map (below_edge T w dp q) (entries (children node)))"
proof -
  let ?f = "\<lambda>kv s. case letterToPattern (fst kv) of None \<Rightarrow> s
              | Some pattern \<Rightarrow> search_node T (snd kv) (w @ [fst kv])
                  (newDp (deletionCost T) pattern dp q) q s"
  have step: "?f kv s = s @ below_edge T w dp q kv" for kv s
    using search_node_push [of T "snd kv" "w @ [fst kv]" _ q s]
    by (auto simp: below_edge_def split: option.splits)
  show ?thesis
    by (subst search_node.simps, subst fold_push [where g = "below_edge T w dp q"])
       (auto simp: step own_record_def)
qed


lemma known_Nil [simp]: "known []"
  by (simp add: known_def)

lemma known_Cons [simp]: "known (c # w) \<longleftrightarrow> letterToPattern c \<noteq> None \<and> known w"
  by (simp add: known_def)

lemma known_append [simp]: "known (u @ v) \<longleftrightarrow> known u \<and> known v"
  by (simp add: known_def)

lemma is_word_Nil [simp]: "is_word node [] = isEnd node"
  by (simp add: is_word_def)

lemma is_word_Cons:
  "is_word node (c # w) \<longleftrightarrow> (\<exists>ch. map_of (children node) c = Some ch \<and> is_word ch w)"
  by (simp add: is_word_def split: option.splits)

lemma in_below_edge:
  "r \<in> set (below_edge T w0 dp q kv) \<longleftrightarrow>
     (\<exists>p. letterToPattern (fst kv) = Some p \<and>
          r \<in> set (search_node T (snd kv) (w0 @ [fst kv]) (newDp (deletionCost T) p dp q) q []))"
  by (cases "letterToPattern (fst kv)") (simp_all add: below_edge_def)

lemma in_search_node_step:
  "r \<in> set (search_node T node w0 dp q acc) \<longleftrightarrow>
     r \<in> set acc
     \<or> (isEnd node \<and> r = \<lparr>word = w0, cost = totalCost (deletionCost T) (length q) dp\<rparr>)
     \<or> (\<exists>kv \<in> set (children node). r \<in> set (below_edge T w0 dp q kv))"
  by (subst search_node_unfold) (auto simp: own_record_def set_entries)

lemma in_search_node:
  assumes "distinct_keys node"
  shows "r \<in> set (search_node T node w0 dp q acc) \<longleftrightarrow>
           r \<in> set acc
           \<or> (\<exists>w. known w \<and> is_word node w \<and>
                  r = \<lparr>word = w0 @ w,
                       cost = totalCost (deletionCost T) (length q)
                                (row_from (deletionCost T) q dp w)\<rparr>)"
  using assms
proof (induction T node w0 dp q acc arbitrary: r rule: search_node.induct)
  case (1 T node w0 dp q acc)
  let ?dc = "deletionCost T"
  let ?rec = "\<lambda>u d w. \<lparr>word = u @ w, cost = totalCost ?dc (length q) (row_from ?dc q d w)\<rparr>"
  obtain kvs e where node: "node = TrieNode kvs e"
    by (cases node)
  from "1.prems" node have dk: "distinct (map fst kvs)"
    and sub: "\<And>kv. kv \<in> set kvs \<Longrightarrow> distinct_keys (snd kv)"
    by (auto simp: list_all_iff)
  have IH: "r \<in> set (search_node T (snd kv) (w0 @ [fst kv]) (newDp ?dc p dp q) q [])
              \<longleftrightarrow> (\<exists>w. known w \<and> is_word (snd kv) w \<and> r = ?rec (w0 @ [fst kv]) (newDp ?dc p dp q) w)"
    if "kv \<in> set kvs" "letterToPattern (fst kv) = Some p" for kv p r
  proof -
    from that node have "kv \<in> set (entries (children node))"
      by (simp add: set_entries)
    note "1.IH" [OF this that(2) sub [OF that(1)]]
    from this [of r "[]"] show ?thesis
      by simp
  qed
  have look: "map_of kvs c = Some ch \<longleftrightarrow> (c, ch) \<in> set kvs" for c ch
    using dk by simp
  show ?case
  proof
    assume "r \<in> set (search_node T node w0 dp q acc)"
    then consider "r \<in> set acc"
      | "isEnd node" "r = \<lparr>word = w0, cost = totalCost ?dc (length q) dp\<rparr>"
      | kv where "kv \<in> set kvs" "r \<in> set (below_edge T w0 dp q kv)"
      using node by (auto simp: in_search_node_step)
    then show "r \<in> set acc \<or> (\<exists>w. known w \<and> is_word node w \<and> r = ?rec w0 dp w)"
    proof cases
      case 1
      then show ?thesis by simp
    next
      case 2
      then have "known [] \<and> is_word node [] \<and> r = ?rec w0 dp []"
        by simp
      then show ?thesis by blast
    next
      case 3
      then obtain p where p: "letterToPattern (fst kv) = Some p"
        and "r \<in> set (search_node T (snd kv) (w0 @ [fst kv]) (newDp ?dc p dp q) q [])"
        by (auto simp: in_below_edge)
      with IH [OF 3(1) p] obtain w where w: "known w" "is_word (snd kv) w"
        "r = ?rec (w0 @ [fst kv]) (newDp ?dc p dp q) w"
        by blast
      from 3(1) have "map_of kvs (fst kv) = Some (snd kv)"
        by (simp add: look)
      with w p node have "known (fst kv # w) \<and> is_word node (fst kv # w) \<and> r = ?rec w0 dp (fst kv # w)"
        by (simp add: is_word_Cons)
      then show ?thesis by blast
    qed
  next
    assume "r \<in> set acc \<or> (\<exists>w. known w \<and> is_word node w \<and> r = ?rec w0 dp w)"
    then consider "r \<in> set acc" | w where "known w" "is_word node w" "r = ?rec w0 dp w"
      by blast
    then show "r \<in> set (search_node T node w0 dp q acc)"
    proof cases
      case 1
      then show ?thesis by (simp add: in_search_node_step)
    next
      case 2
      show ?thesis
      proof (cases w)
        case Nil
        with 2 show ?thesis by (simp add: in_search_node_step)
      next
        case (Cons c w')
        with 2 node obtain ch p where ch: "map_of kvs c = Some ch" "is_word ch w'"
          and p: "letterToPattern c = Some p" and kw: "known w'"
          by (auto simp: is_word_Cons)
        from ch have mem: "(c, ch) \<in> set kvs"
          by (simp add: look)
        have "r = ?rec (w0 @ [c]) (newDp ?dc p dp q) w'"
          using 2(3) Cons p by simp
        with IH [OF mem, of p r] p ch kw
        have "r \<in> set (below_edge T w0 dp q (c, ch))"
          by (auto simp: in_below_edge)
        with mem node show ?thesis
          by (auto simp: in_search_node_step)
      qed
    qed
  qed
qed


subsection \<open>One record for each word\<close>

lemma distinct_concat_map:
  assumes "distinct (map k xs)"
    and "\<And>x. x \<in> set xs \<Longrightarrow> distinct (g x)"
    and "\<And>x y. x \<in> set xs \<Longrightarrow> y \<in> set xs \<Longrightarrow> k x \<noteq> k y \<Longrightarrow> set (g x) \<inter> set (g y) = {}"
  shows "distinct (concat (map g xs))"
  using assms
proof (induction xs)
  case Nil
  then show ?case by simp
next
  case (Cons x xs)
  have "set (g x) \<inter> set (g y) = {}" if "y \<in> set xs" for y
  proof -
    from that Cons.prems(1) have "k x \<noteq> k y"
      by auto
    with Cons.prems(3) [of x y] that show ?thesis
      by simp
  qed
  moreover have "distinct (concat (map g xs))"
    using Cons by simp
  ultimately show ?case
    using Cons.prems(2) [of x] by auto
qed

lemma distinct_keys_entries:
  "distinct (map fst kvs) \<Longrightarrow> distinct (map fst (entries kvs))"
  by (auto simp: entries_def distinct_map inj_on_def)

lemma word_below_edge:
  assumes "r \<in> set (below_edge T w0 dp q kv)" and "distinct_keys (snd kv)"
  shows "\<exists>w. word r = w0 @ fst kv # w"
proof -
  from assms(1) obtain p
    where "r \<in> set (search_node T (snd kv) (w0 @ [fst kv]) (newDp (deletionCost T) p dp q) q [])"
    by (auto simp: in_below_edge)
  with in_search_node [OF assms(2), of r T "w0 @ [fst kv]" _ q "[]"] show ?thesis
    by auto
qed

lemma distinct_search_node:
  assumes "distinct_keys node"
  shows "distinct (map word (search_node T node w0 dp q []))"
  using assms
proof (induction T node w0 dp q "[] :: Suggestion list" rule: search_node.induct)
  case (1 T node w0 dp q)
  obtain kvs e where node: "node = TrieNode kvs e"
    by (cases node)
  from "1.prems" node have dk: "distinct (map fst kvs)"
    and sub: "\<And>kv. kv \<in> set kvs \<Longrightarrow> distinct_keys (snd kv)"
    by (auto simp: list_all_iff)
  let ?g = "\<lambda>kv. map word (below_edge T w0 dp q kv)"
  have each: "distinct (?g kv)" if "kv \<in> set (entries kvs)" for kv
  proof (cases "letterToPattern (fst kv)")
    case None
    then show ?thesis by (simp add: below_edge_def)
  next
    case (Some p)
    from that have "kv \<in> set kvs"
      by (simp add: set_entries)
    with "1.hyps" [of kv p] that Some node sub show ?thesis
      by (simp add: below_edge_def)
  qed
  have apart: "set (?g x) \<inter> set (?g y) = {}"
    if "x \<in> set (entries kvs)" "y \<in> set (entries kvs)" "fst x \<noteq> fst y" for x y
  proof -
    from that have "distinct_keys (snd x)" "distinct_keys (snd y)"
      by (simp_all add: set_entries sub)
    then show ?thesis
      using that(3) by (auto dest!: word_below_edge)
  qed
  have own: "w0 \<notin> set (?g kv)" if "kv \<in> set (entries kvs)" for kv
  proof -
    from that have "distinct_keys (snd kv)"
      by (simp add: set_entries sub)
    then show ?thesis
      by (auto dest!: word_below_edge)
  qed
  have "distinct (concat (map ?g (entries kvs)))"
    using distinct_keys_entries [OF dk] each apart
    by (rule distinct_concat_map [where k = fst])
  with own node show ?case
    by (subst search_node_unfold) (auto simp: own_record_def map_concat comp_def)
qed


subsection \<open>Insertion\<close>

lemma map_of_set_child:
  "map_of kvs c = Some old \<Longrightarrow> map_of (set_child c v kvs) = (map_of kvs)(c \<mapsto> v)"
  by (induction kvs) (auto split: if_splits)

lemma map_of_snoc:
  "map_of kvs c = None \<Longrightarrow> ([c \<mapsto> v] ++ map_of kvs) d = (if d = c then Some v else map_of kvs d)"
  by (auto simp: map_add_def split: option.splits)

lemma keys_set_child: "map fst (set_child c v kvs) = map fst kvs"
  by (induction kvs) auto

lemma set_set_child: "x \<in> set (set_child c v kvs) \<Longrightarrow> x \<in> set kvs \<or> x = (c, v)"
  by (induction kvs) (auto split: if_splits)

lemma set_child_twice: "set_child c v (set_child c u kvs) = set_child c v kvs"
  by (induction kvs) auto

lemma set_child_snoc:
  "map_of kvs c = None \<Longrightarrow> set_child c v (kvs @ [(c, u)]) = kvs @ [(c, v)]"
  by (induction kvs) (auto split: if_splits)

lemma insert_node_twice: "insert_node w (insert_node w node) = insert_node w node"
proof (induction w arbitrary: node)
  case Nil
  show ?case by simp
next
  case (Cons c w)
  show ?case
  proof (cases "map_of (children node) c")
    case None
    then show ?thesis
      by (simp add: map_of_snoc set_child_snoc Cons.IH)
  next
    case (Some ch)
    then show ?thesis
      by (simp add: map_of_set_child set_child_twice Cons.IH)
  qed
qed

lemma distinct_keys_new [simp]: "distinct_keys new_TrieNode"
  by (simp add: new_TrieNode_def)

lemma distinct_keys_insert_node:
  "distinct_keys node \<Longrightarrow> distinct_keys (insert_node w node)"
proof (induction w arbitrary: node)
  case Nil
  then show ?case by (cases node) simp
next
  case (Cons c w)
  obtain kvs e where node: "node = TrieNode kvs e"
    by (cases node)
  with Cons.prems have dk: "distinct (map fst kvs)"
    and sub: "\<And>kv. kv \<in> set kvs \<Longrightarrow> distinct_keys (snd kv)"
    by (auto simp: list_all_iff)
  show ?case
  proof (cases "map_of kvs c")
    case None
    then have "c \<notin> fst ` set kvs"
      by (simp add: map_of_eq_None_iff)
    with None node dk sub Cons.IH [of new_TrieNode] show ?thesis
      by (auto simp: list_all_iff)
  next
    case (Some ch)
    then have "(c, ch) \<in> set kvs"
      by (rule map_of_SomeD)
    then have "distinct_keys (insert_node w ch)"
      using sub [of "(c, ch)"] Cons.IH by simp
    with Some node dk sub show ?thesis
      by (auto simp: list_all_iff keys_set_child dest!: set_set_child)
  qed
qed

lemma is_word_new [simp]: "\<not> is_word new_TrieNode w"
  by (cases w) (simp_all add: is_word_def new_TrieNode_def)

lemma is_word_insert_node:
  "is_word (insert_node w node) v \<longleftrightarrow> v = w \<or> is_word node v"
proof (induction w arbitrary: node v)
  case Nil
  show ?case by (cases v) (auto simp: is_word_Cons)
next
  case (Cons c w)
  show ?case
  proof (cases v)
    case Nil
    then show ?thesis by (simp split: option.splits)
  next
    case v: (Cons d v')
    show ?thesis
    proof (cases "map_of (children node) c")
      case None
      then show ?thesis
        using Cons.IH [of new_TrieNode v'] v
        by (auto simp: is_word_Cons map_of_snoc)
    next
      case (Some ch)
      then show ?thesis
        using Cons.IH [of ch v'] v
        by (auto simp: is_word_Cons map_of_set_child)
    qed
  qed
qed

lemma root_insert_word [simp]: "root (insert_word w T) = insert_node w (root T)"
  by (simp add: insert_word_def)

lemma deletionCost_insert_word [simp]: "deletionCost (insert_word w T) = deletionCost T"
  by (simp add: insert_word_def)

lemma foldl_insert_word:
  "deletionCost (foldl (\<lambda>T w. insert_word w T) T ws) = deletionCost T
   \<and> (distinct_keys (root T) \<longrightarrow> distinct_keys (root (foldl (\<lambda>T w. insert_word w T) T ws)))
   \<and> (is_word (root (foldl (\<lambda>T w. insert_word w T) T ws)) v \<longleftrightarrow> v \<in> set ws \<or> is_word (root T) v)"
  by (induction ws arbitrary: T) (auto simp: distinct_keys_insert_node is_word_insert_node)

lemma deletionCost_build [simp]: "deletionCost (build ws) = 3"
  using foldl_insert_word [of new_Trie ws] by (simp add: build_def new_Trie_def)

lemma distinct_keys_build [simp]: "distinct_keys (root (build ws))"
  using foldl_insert_word [of new_Trie ws] by (simp add: build_def new_Trie_def)

lemma is_word_build [simp]: "is_word (root (build ws)) v \<longleftrightarrow> v \<in> set ws"
  using foldl_insert_word [of new_Trie ws v] by (simp add: build_def new_Trie_def)

subsection \<open>Rows, costs and the final slice\<close>

lemma newDp_upto_0: "newDp_upto dc p dp q 0 = [dp ! 0 + dc]"
  by (simp add: newDp_upto_def)

lemma newDp_upto_Suc:
  "newDp_upto dc p dp q (Suc m) = newDp_step dc p dp q (Suc m) (newDp_upto dc p dp q m)"
  by (simp add: newDp_upto_def)

lemma length_newDp_upto: "length (newDp_upto dc p dp q m) = Suc m"
  by (induction m) (simp_all add: newDp_upto_0 newDp_upto_Suc newDp_step_def)

lemma newDp_upto_stable:
  "j \<le> m \<Longrightarrow> newDp_upto dc p dp q (m + d) ! j = newDp_upto dc p dp q m ! j"
  by (induction d) (simp_all add: newDp_upto_Suc newDp_step_def nth_append length_newDp_upto)

lemma newDp_upto_last:
  "newDp_upto dc p dp q (Suc m) ! Suc m =
     min (dp ! Suc m + dc)
       (min (newDp_upto dc p dp q m ! m + dc) (dp ! m + hammingDistance p (q ! m)))"
  by (simp add: newDp_upto_Suc newDp_step_def nth_append length_newDp_upto)

lemma newDp_is_upto: "newDp dc p dp q = newDp_upto dc p dp q (length q)"
  by (simp add: newDp_def newDp_upto_def)

lemma length_newDp: "length (newDp dc p dp q) = Suc (length q)"
  by (simp add: newDp_is_upto length_newDp_upto)

lemma newDp_first: "newDp dc p dp q ! 0 = dp ! 0 + dc"
  using newDp_upto_stable [of 0 0 dc p dp q "length q"]
  by (simp add: newDp_is_upto newDp_upto_0)

lemma newDp_recurrence:
  assumes "1 \<le> j" and "j \<le> length q"
  shows "newDp dc p dp q ! j =
           min (dp ! j + dc)
             (min (newDp dc p dp q ! (j - 1) + dc)
                  (dp ! (j - 1) + hammingDistance p (q ! (j - 1))))"
proof -
  from assms obtain m where j: "j = Suc m"
    by (cases j) auto
  from assms obtain d where d: "length q = Suc m + d"
    using j by (metis le_Suc_ex)
  have a: "newDp dc p dp q ! Suc m = newDp_upto dc p dp q (Suc m) ! Suc m"
    using newDp_upto_stable [of "Suc m" "Suc m" dc p dp q d] d by (simp add: newDp_is_upto)
  have b: "newDp dc p dp q ! m = newDp_upto dc p dp q m ! m"
    using newDp_upto_stable [of m m dc p dp q "Suc d"] d by (simp add: newDp_is_upto)
  show ?thesis
    unfolding j using a b by (simp add: newDp_upto_last)
qed

lemma zip_upt_nth: "zip xs [0..<length xs] = map (\<lambda>j. (xs ! j, j)) [0..<length xs]"
  by (rule nth_equalityI) simp_all

lemma totalCost_Min:
  assumes "length dp = Suc n"
  shows "totalCost dc n dp = Min ((\<lambda>j. dp ! j + dc * (int n - int j)) ` {0..n})"
proof -
  have "zip dp [0..<length dp] = map (\<lambda>j. (dp ! j, j)) [0..<Suc n]"
    using zip_upt_nth [of dp] assms by simp
  then have "totalCost dc n dp = min_list (map (\<lambda>j. dp ! j + dc * (int n - int j)) [0..<Suc n])"
    by (simp add: totalCost_def comp_def del: upt_Suc)
  also have "\<dots> = Min (set (map (\<lambda>j. dp ! j + dc * (int n - int j)) [0..<Suc n]))"
    by (rule min_list_Min) simp
  also have "set (map (\<lambda>j. dp ! j + dc * (int n - int j)) [0..<Suc n])
               = (\<lambda>j. dp ! j + dc * (int n - int j)) ` {0..n}"
    by (simp only: set_map set_upt atLeastLessThanSuc_atLeastAtMost)
  finally show ?thesis .
qed

lemma length_initialDp: "length (initialDp T n) = Suc n"
  by (simp add: initialDp_def)

lemma initialDp_nth: "j \<le> n \<Longrightarrow> initialDp T n ! j = int j * deletionCost T"
  unfolding initialDp_def by (simp add: nth_append less_Suc_eq_le  del: upt_Suc)

lemma totalCost_initialDp:
  "totalCost (deletionCost T) n (initialDp T n) = int n * deletionCost T"
proof -
  have "(\<lambda>j. initialDp T n ! j + deletionCost T * (int n - int j)) ` {0..n}
          = (\<lambda>j. int n * deletionCost T) ` {0..n}"
    by (rule image_cong) (simp_all add: initialDp_nth algebra_simps)
  also have "\<dots> = {int n * deletionCost T}"
    by auto
  finally show ?thesis
    by (simp add: totalCost_Min length_initialDp)
qed

lemma slice0_nonneg: "0 \<le> k \<Longrightarrow> slice0 xs k = take (nat k) xs"
  by (auto simp: slice0_def Let_def min_def)

lemma slice0_neg: "k < 0 \<Longrightarrow> slice0 xs k = take (length xs - nat (- k)) xs"
  by (auto simp: slice0_def Let_def max_def intro!: arg_cong [where f = "\<lambda>n. take n xs"])

lemma search_eq:
  "search T q k = (if q = [] then [] else slice0 (sort_by_cost (emitted T q)) k)"
  by (simp add: search_def emitted_def Let_def)

lemma set_slice0: "set (slice0 xs k) \<subseteq> set xs"
  by (auto simp: slice0_def Let_def dest: in_set_takeD)

lemma set_search: "set (search T q k) \<subseteq> set (emitted T q)"
  using set_slice0 [of "sort_by_cost (emitted T q)" k]
  by (auto simp: search_eq sort_by_cost_def)

subsection \<open>What a search returns\<close>

lemma known_search_node:
  "r \<in> set (search_node T node w0 dp q acc) \<Longrightarrow>
     r \<in> set acc \<or> (\<exists>w. known w \<and> word r = w0 @ w)"
proof (induction T node w0 dp q acc arbitrary: r rule: search_node.induct)
  case (1 T node w0 dp q acc)
  from "1.prems" consider "r \<in> set acc"
    | "r = \<lparr>word = w0, cost = totalCost (deletionCost T) (length q) dp\<rparr>"
    | kv where "kv \<in> set (children node)" "r \<in> set (below_edge T w0 dp q kv)"
    by (auto simp: in_search_node_step)
  then show ?case
  proof cases
    case 1
    then show ?thesis by simp
  next
    case 2
    then have "known [] \<and> word r = w0 @ []"
      by simp
    then show ?thesis by blast
  next
    case 3
    then obtain p where p: "letterToPattern (fst kv) = Some p"
      and r: "r \<in> set (search_node T (snd kv) (w0 @ [fst kv]) (newDp (deletionCost T) p dp q) q [])"
      by (auto simp: in_below_edge)
    from 3(1) have "kv \<in> set (entries (children node))"
      by (simp add: set_entries)
    from "1.IH" [OF this p r] obtain w where "known w" "word r = (w0 @ [fst kv]) @ w"
      by auto
    with p have "known (fst kv # w) \<and> word r = w0 @ fst kv # w"
      by simp
    then show ?thesis by blast
  qed
qed

lemma known_emitted: "r \<in> set (emitted T q) \<Longrightarrow> known (word r)"
  using known_search_node [of r T "root T" "[]" _ q "[]"] by (auto simp: emitted_def)

lemma length_row_from:
  "length dp = Suc (length q) \<Longrightarrow> length (row_from dc q dp w) = Suc (length q)"
  by (induction w arbitrary: dp) (simp_all add: length_newDp split: option.splits)

lemma in_emitted:
  assumes "distinct_keys (root T)"
  shows "r \<in> set (emitted T q) \<longleftrightarrow>
           (\<exists>w. known w \<and> is_word (root T) w \<and>
                r = \<lparr>word = w,
                     cost = totalCost (deletionCost T) (length q)
                              (row_from (deletionCost T) q (initialDp T (length q)) w)\<rparr>)"
  using in_search_node [OF assms, of r T "[]" _ q "[]"] by (simp add: emitted_def)

lemma words_emitted:
  assumes "distinct_keys (root T)"
  shows "word ` set (emitted T q) = {w. known w \<and> is_word (root T) w}"
proof (rule set_eqI)
  fix w
  show "w \<in> word ` set (emitted T q) \<longleftrightarrow> w \<in> {w. known w \<and> is_word (root T) w}"
  proof
    assume "w \<in> word ` set (emitted T q)"
    then obtain r where "r \<in> set (emitted T q)" "w = word r"
      by auto
    then show "w \<in> {w. known w \<and> is_word (root T) w}"
      by (auto simp: in_emitted [OF assms])
  next
    let ?r = "\<lparr>word = w, cost = totalCost (deletionCost T) (length q)
                 (row_from (deletionCost T) q (initialDp T (length q)) w)\<rparr>"
    assume "w \<in> {w. known w \<and> is_word (root T) w}"
    then have "?r \<in> set (emitted T q)"
      by (auto simp: in_emitted [OF assms])
    moreover have "word ?r = w"
      by simp
    ultimately show "w \<in> word ` set (emitted T q)"
      by (metis image_eqI)
  qed
qed

lemma distinct_emitted: "distinct_keys (root T) \<Longrightarrow> distinct (map word (emitted T q))"
  by (simp add: emitted_def distinct_search_node)

lemma distinct_map_take: "distinct (map f xs) \<Longrightarrow> distinct (map f (take n xs))"
  by (simp add: take_map [symmetric] distinct_take)

lemma distinct_words_search:
  assumes "distinct_keys (root T)"
  shows "distinct (map word (search T q k))"
proof -
  have "distinct (map word (sort_by_cost (emitted T q)))"
    using distinct_emitted [OF assms, of q] by (simp add: sort_by_cost_def distinct_map)
  then show ?thesis
    by (simp add: search_eq slice0_def Let_def distinct_map_take)
qed

lemma at_most_once:
  "distinct (map f xs) \<Longrightarrow> length (filter (\<lambda>x. f x = a) xs) \<le> 1"
  by (induction xs) (auto simp: filter_empty_conv image_iff)

lemma search_all:
  assumes "q \<noteq> []" and "int (length (emitted T q)) \<le> k"
  shows "search T q k = sort_by_cost (emitted T q)"
  using assms by (simp add: search_eq slice0_nonneg sort_by_cost_def)

lemma insert_word_twice: "insert_word w (insert_word w T) = insert_word w T"
  by (simp add: insert_word_def insert_node_twice)

lemma search_node_deletionCost:
  assumes "deletionCost T' = deletionCost T"
  shows "search_node T' node w dp q acc = search_node T node w dp q acc"
  using assms
proof (induction T node w dp q acc rule: search_node.induct)
  case (1 T node w dp q acc)
  note dc = "1.prems"
  have "(case letterToPattern (fst kv) of None \<Rightarrow> s
         | Some pattern \<Rightarrow> search_node T' (snd kv) (w @ [fst kv])
             (newDp (deletionCost T') pattern dp q) q s)
      = (case letterToPattern (fst kv) of None \<Rightarrow> s
         | Some pattern \<Rightarrow> search_node T (snd kv) (w @ [fst kv])
             (newDp (deletionCost T) pattern dp q) q s)"
    if "kv \<in> set (entries (children node))" for kv s
    using "1.IH" [OF that _ dc] dc by (simp split: option.splits)
  then show ?case
    by (subst search_node.simps, subst (2) search_node.simps)
      (auto intro!: fold_cong simp: dc)
qed

lemma emitted_insert_Nil:
  "emitted (insert_word [] T) q =
     (if isEnd (root T) then emitted T q
      else \<lparr>word = [], cost = int (length q) * deletionCost T\<rparr> # emitted T q)"
proof -
  let ?n = "length q"
  let ?marked = "TrieNode (children (root T)) True"
  have "emitted (insert_word [] T) q = search_node T ?marked [] (initialDp T ?n) q []"
    using search_node_deletionCost [of "insert_word [] T" T]
    by (simp add: emitted_def initialDp_def)
  also have "\<dots> = \<lparr>word = [], cost = int ?n * deletionCost T\<rparr>
                    # concat (map (below_edge T [] (initialDp T ?n) q) (entries (children (root T))))"
    by (subst search_node_unfold) (simp add: own_record_def totalCost_initialDp)
  finally have new: "emitted (insert_word [] T) q =
      \<lparr>word = [], cost = int ?n * deletionCost T\<rparr>
        # concat (map (below_edge T [] (initialDp T ?n) q) (entries (children (root T))))" .
  have old: "emitted T q = own_record T (root T) [] (initialDp T ?n) q
      @ concat (map (below_edge T [] (initialDp T ?n) q) (entries (children (root T))))"
    unfolding emitted_def by (subst search_node_unfold) simp
  show ?thesis
    using new old by (simp add: own_record_def totalCost_initialDp)
qed

subsection \<open>The dictionary with the single word \<open>cat\<close>\<close>

lemma hammingDistance_nonneg: "0 \<le> hammingDistance p1 p2"
proof -
  have "0 \<le> a \<Longrightarrow> 0 \<le> fold (\<lambda>i distance. if char_at p1 i \<noteq> char_at p2 i then distance + 1 else distance) is a"
    for "is" and a :: int
    by (induction "is" arbitrary: a) simp_all
  then show ?thesis
    by (simp only: hammingDistance_def)
qed

lemma build_cat:
  "build [''cat''] =
     \<lparr>root = TrieNode [(CHR ''c'', TrieNode [(CHR ''a'', TrieNode [(CHR ''t'', TrieNode [] True)] False)] False)] False,
      deletionCost = 3\<rparr>"
  by (simp add: build_def insert_word_def new_Trie_def new_TrieNode_def)

lemma hamming_cat:
  "hammingDistance ''100100'' ''100100'' = 0" "hammingDistance ''100100'' ''100000'' = 1"
  "hammingDistance ''100100'' ''011110'' = 4" "hammingDistance ''100000'' ''100100'' = 1"
  "hammingDistance ''100000'' ''100000'' = 0" "hammingDistance ''100000'' ''011110'' = 5"
  "hammingDistance ''011110'' ''100100'' = 4" "hammingDistance ''011110'' ''100000'' = 5"
  "hammingDistance ''011110'' ''011110'' = 0"
  by (simp_all add: hammingDistance_def char_at_def upt_rec)

lemma patterns_cat:
  "letterToPattern CHR ''c'' = Some ''100100''" "letterToPattern CHR ''a'' = Some ''100000''"
  "letterToPattern CHR ''t'' = Some ''011110''"
  by (simp_all add: letterToPattern_def letterToPattern_table_def)

lemma entries_single: "entries [kv] = [kv]"
  by (cases "is_index_key (fst kv)") (simp_all add: entries_def)

lemma search_node_leaf:
  "search_node T (TrieNode [] True) w dp q acc
     = acc @ [\<lparr>word = w, cost = totalCost (deletionCost T) (length q) dp\<rparr>]"
  by (subst search_node.simps) (simp add: entries_def)

lemma search_node_single:
  "letterToPattern c = Some p \<Longrightarrow>
   search_node T (TrieNode [(c, child)] False) w dp q acc
     = search_node T child (w @ [c]) (newDp (deletionCost T) p dp q) q acc"
  by (subst search_node.simps) (simp add: entries_single)

lemma emitted_cat:
  "emitted (build [''cat'']) q =
     [\<lparr>word = ''cat'',
       cost = totalCost 3 (length q)
                (newDp 3 ''011110'' (newDp 3 ''100000'' (newDp 3 ''100100''
                   (initialDp (build [''cat'']) (length q)) q) q) q)\<rparr>]"
  unfolding emitted_def
  by (subst (2) build_cat, simp add: search_node_single patterns_cat search_node_leaf) 

lemma rows_cat_4:
  fixes x :: string
  defines "q \<equiv> [''100100'', ''100000'', ''011110'', x]"
  shows "newDp 3 ''100100'' [0, 3, 6, 9, 12] q = [3, 0, 3, 6, 9]"
    and "newDp 3 ''100000'' [3, 0, 3, 6, 9] q = [6, 3, 0, 3, 6]"
    and "newDp 3 ''011110'' [6, 3, 0, 3, 6] q = [9, 6, 3, 0, 3]"
  using hammingDistance_nonneg [of "''100100''" x] hammingDistance_nonneg [of "''100000''" x]
    hammingDistance_nonneg [of "''011110''" x]
  by (simp_all add: q_def newDp_def newDp_step_def hamming_cat)

lemma emitted_cat_4:
  "emitted (build [''cat'']) [''100100'', ''100000'', ''011110'', x] = [\<lparr>word = ''cat'', cost = 3\<rparr>]"
  by (simp add: emitted_cat initialDp_def rows_cat_4 totalCost_def)

lemma rows_cat_3:
  fixes q :: "string list"
  defines "q \<equiv> [''100100'', ''100000'', ''011110'']"
  shows "newDp 3 ''100100'' [0, 3, 6, 9] q = [3, 0, 3, 6]"
    and "newDp 3 ''100000'' [3, 0, 3, 6] q = [6, 3, 0, 3]"
    and "newDp 3 ''011110'' [6, 3, 0, 3] q = [9, 6, 3, 0]"
  by (simp_all add: q_def newDp_def newDp_step_def hamming_cat)

lemma emitted_cat_3:
  "emitted (build [''cat'']) [''100100'', ''100000'', ''011110''] = [\<lparr>word = ''cat'', cost = 0\<rparr>]"
  by (simp add: emitted_cat initialDp_def rows_cat_3 totalCost_def)

lemma sort_by_cost_single: "sort_by_cost [r] = [r]"
  by (simp add: sort_by_cost_def)



subsection \<open>The dictionary with the words \<open>a\<close> and \<open>b\<close>\<close>

lemma build_a_b:
  "build [''a'', ''b''] =
     \<lparr>root = TrieNode [(CHR ''a'', TrieNode [] True), (CHR ''b'', TrieNode [] True)] False,
      deletionCost = 3\<rparr>"
  by (simp add: build_def insert_word_def new_Trie_def new_TrieNode_def)

lemma patterns_a_b:
  "letterToPattern CHR ''a'' = Some ''100000''" "letterToPattern CHR ''b'' = Some ''110000''"
  by (simp_all add: letterToPattern_def letterToPattern_table_def)

lemma emitted_a_b:
  "emitted (build [''a'', ''b'']) [''100000'']
     = [\<lparr>word = ''a'', cost = 0\<rparr>, \<lparr>word = ''b'', cost = 1\<rparr>]"
proof -
  have ham: "hammingDistance ''100000'' ''100000'' = 0" "hammingDistance ''110000'' ''100000'' = 1"
    by (simp_all add: hammingDistance_def char_at_def upt_rec)
  have rows: "newDp 3 ''100000'' [0, 3] [''100000''] = [3, 0]"
    "newDp 3 ''110000'' [0, 3] [''100000''] = [3, 1]"
    by (simp_all add: newDp_def newDp_step_def ham)
  have ent: "entries [(CHR ''a'', TrieNode [] True), (CHR ''b'', TrieNode [] True)]
               = [(CHR ''a'', TrieNode [] True), (CHR ''b'', TrieNode [] True)]"
    by (simp add: entries_def is_index_key_def)
  show ?thesis
    unfolding emitted_def
    by (subst (2) build_a_b, subst search_node.simps)
      (simp add: ent patterns_a_b search_node_leaf initialDp_def rows totalCost_def)
qed

lemma sorted_a_b:
  "sort_by_cost [\<lparr>word = ''a'', cost = 0\<rparr>, \<lparr>word = ''b'', cost = 1\<rparr>]
     = [\<lparr>word = ''a'', cost = 0\<rparr>, \<lparr>word = ''b'', cost = 1\<rparr>]"
  by (simp add: sort_by_cost_def)

section \<open>The claims\<close>

text \<open>
  Claim C1. With \<^verbatim>\<open>deletionCost = 3\<close>, \<^verbatim>\<open>search\<close> on a query of \<open>n\<close> patterns calls
  \<^verbatim>\<open>_search\<close> on the root with the row \<open>[0, 3, 6, \<dots>, 3n]\<close>. A call of \<^verbatim>\<open>_search\<close> with
  the row \<open>dp\<close> recurses into each entry of \<^verbatim>\<open>children\<close> whose symbol has a pattern with
  the row \<open>newDp\<close> computed from \<open>dp\<close>, that pattern and the query alone; this row has
  \<open>n + 1\<close> elements, \<open>newDp[0] = dp[0] + 3\<close>, and for every \<open>j\<close> from 1 to \<open>n\<close>,
  \<open>newDp[j] = min (dp[j] + 3, newDp[j-1] + 3, dp[j-1] + hamming (pattern, query[j-1]))\<close>.
\<close>

theorem C1_rows:
  assumes "deletionCost T = 3"
  shows "(q \<noteq> [] \<longrightarrow>
            search T q k =
              slice0 (sort_by_cost
                (search_node T (root T) [] (map (\<lambda>j. int j * 3) [0..<Suc (length q)]) q [])) k)
       \<and> search_node T node w dp q acc =
            fold (\<lambda>kv suggestions.
                    case letterToPattern (fst kv) of
                      None \<Rightarrow> suggestions
                    | Some pattern \<Rightarrow>
                        search_node T (snd kv) (w @ [fst kv]) (newDp 3 pattern dp q) q suggestions)
              (entries (children node))
              (if isEnd node
               then acc @ [\<lparr>word = w, cost = totalCost 3 (length q) dp\<rparr>]
               else acc)
       \<and> length (newDp 3 p dp q) = Suc (length q)
       \<and> newDp 3 p dp q ! 0 = dp ! 0 + 3
       \<and> (\<forall>j \<in> {1..length q}.
             newDp 3 p dp q ! j =
               min (dp ! j + 3)
                 (min (newDp 3 p dp q ! (j - 1) + 3)
                      (dp ! (j - 1) + hammingDistance p (q ! (j - 1)))))"
proof -
  have "initialDp T (length q) = map (\<lambda>j. int j * 3) [0..<Suc (length q)]"
    using assms by (simp add: initialDp_def)
  then have "q \<noteq> [] \<longrightarrow>
      search T q k =
        slice0 (sort_by_cost
          (search_node T (root T) [] (map (\<lambda>j. int j * 3) [0..<Suc (length q)]) q [])) k"
    by (simp add: search_def Let_def)
  moreover have "search_node T node w dp q acc =
      fold (\<lambda>kv suggestions.
              case letterToPattern (fst kv) of
                None \<Rightarrow> suggestions
              | Some pattern \<Rightarrow>
                  search_node T (snd kv) (w @ [fst kv]) (newDp 3 pattern dp q) q suggestions)
        (entries (children node))
        (if isEnd node
         then acc @ [\<lparr>word = w, cost = totalCost 3 (length q) dp\<rparr>]
         else acc)"
    by (subst search_node.simps) (simp only: assms)
  moreover have "\<forall>j \<in> {1..length q}.
      newDp 3 p dp q ! j =
        min (dp ! j + 3)
          (min (newDp 3 p dp q ! (j - 1) + 3)
               (dp ! (j - 1) + hammingDistance p (q ! (j - 1))))"
    by (simp add: newDp_recurrence)
  ultimately show ?thesis
    by (simp add: length_newDp newDp_first)
qed

text \<open>
  Claim C1 at the trie of \<open>a\<close> and \<open>b\<close>, the one-pattern query of \<open>a\<close> and the edge \<open>b\<close>:
  the root row is \<open>[0, 3]\<close> and the row of \<open>b\<close> is \<open>[3, 1]\<close>.
\<close>

theorem C1_rows_witness:
  "deletionCost (build [''a'', ''b'']) = 3
   \<and> (1::nat) \<in> {1..length [''100000'']}
   \<and> newDp 3 ''110000'' [0, 3] [''100000''] ! 0 = 3
   \<and> newDp 3 ''110000'' [0, 3] [''100000''] ! 1 = 1
   \<and> search (build [''a'', ''b'']) [''100000''] 5
       = slice0 (sort_by_cost (search_node (build [''a'', ''b'']) (root (build [''a'', ''b''])) []
           [0, 3] [''100000''] [])) 5"
proof -
  have dc: "deletionCost (build [''a'', ''b'']) = 3"
    by simp
  have ham: "hammingDistance ''110000'' ''100000'' = 1"
    by (simp add: hammingDistance_def char_at_def upt_rec)
  from C1_rows [OF dc, of "[''100000'']" 5 _ _ "[0, 3]" _ "''110000''"] dc ham
  show ?thesis
    by simp
qed

text \<open>
  Claim C2. In a trie whose objects hold each key once, the records pushed during a search
  are exactly the records \<open>(w, totalCost)\<close> of the paths \<open>w\<close> from the root that run over
  symbols with patterns only (the nodes the traversal reaches) and end at a node marked
  end-of-word, one record for each such node, with \<open>totalCost\<close> the minimum over
  \<open>j = 0, \<dots>, n\<close> of \<open>dp[j] + deletionCost \<cdot> (n - j)\<close> for the row \<open>dp\<close> of that node.
  Locally: a call of \<^verbatim>\<open>_search\<close> on a node with the word \<open>u\<close> and a row \<open>dp\<close> of \<open>n + 1\<close>
  elements pushes that one record if the node is marked, nothing if it is not, and then
  only what the calls for its children push.
\<close>

theorem C2_end_of_word_records:
  assumes "distinct_keys (root T)"
  shows "(\<forall>r. r \<in> set (emitted T q) \<longleftrightarrow>
            (\<exists>w. known w \<and> is_word (root T) w \<and>
               r = \<lparr>word = w,
                    cost = Min ((\<lambda>j. row_from (deletionCost T) q (initialDp T (length q)) w ! j
                                      + deletionCost T * (int (length q) - int j))
                               ` {0..length q})\<rparr>))
       \<and> distinct (map word (emitted T q))
       \<and> (length dp = Suc (length q) \<longrightarrow>
            search_node T node u dp q acc =
              acc
              @ (if isEnd node
                 then [\<lparr>word = u,
                        cost = Min ((\<lambda>j. dp ! j + deletionCost T * (int (length q) - int j))
                                   ` {0..length q})\<rparr>]
                 else [])
              @ concat (map (below_edge T u dp q) (entries (children node))))"
proof -
  have "length (row_from (deletionCost T) q (initialDp T (length q)) w) = Suc (length q)" for w
    by (simp add: length_row_from length_initialDp)
  then have "totalCost (deletionCost T) (length q)
               (row_from (deletionCost T) q (initialDp T (length q)) w)
             = Min ((\<lambda>j. row_from (deletionCost T) q (initialDp T (length q)) w ! j
                          + deletionCost T * (int (length q) - int j)) ` {0..length q})" for w
    by (rule totalCost_Min)
  then have "\<forall>r. r \<in> set (emitted T q) \<longleftrightarrow>
            (\<exists>w. known w \<and> is_word (root T) w \<and>
               r = \<lparr>word = w,
                    cost = Min ((\<lambda>j. row_from (deletionCost T) q (initialDp T (length q)) w ! j
                                      + deletionCost T * (int (length q) - int j))
                               ` {0..length q})\<rparr>)"
    using in_emitted [OF assms, of _ q] by simp
  moreover have "distinct (map word (emitted T q))"
    using assms by (rule distinct_emitted)
  moreover have "length dp = Suc (length q) \<longrightarrow>
            search_node T node u dp q acc =
              acc
              @ (if isEnd node
                 then [\<lparr>word = u,
                        cost = Min ((\<lambda>j. dp ! j + deletionCost T * (int (length q) - int j))
                                   ` {0..length q})\<rparr>]
                 else [])
              @ concat (map (below_edge T u dp q) (entries (children node)))"
    by (subst search_node_unfold) (simp add: own_record_def totalCost_Min)
  ultimately show ?thesis
    by blast
qed

text \<open>
  Claim C2 at the trie of \<open>a\<close> and \<open>b\<close> and the one-pattern query of \<open>a\<close>: the record of
  \<open>b\<close> with cost 1 is the record of a marked node.
\<close>

theorem C2_end_of_word_records_witness:
  "distinct_keys (root (build [''a'', ''b'']))
   \<and> (\<exists>w. known w \<and> is_word (root (build [''a'', ''b''])) w
          \<and> \<lparr>word = ''b'', cost = 1\<rparr> =
              \<lparr>word = w,
               cost = Min ((\<lambda>j. row_from 3 [''100000''] (initialDp (build [''a'', ''b'']) 1) w ! j
                                + 3 * (int 1 - int j)) ` {0..1})\<rparr>)
   \<and> distinct (map word (emitted (build [''a'', ''b'']) [''100000'']))"
proof -
  have dk: "distinct_keys (root (build [''a'', ''b'']))"
    by simp
  have "\<lparr>word = ''b'', cost = 1\<rparr> \<in> set (emitted (build [''a'', ''b'']) [''100000''])"
    by (simp add: emitted_a_b)
  with C2_end_of_word_records [OF dk, of "[''100000'']"] dk show ?thesis
    by simp
qed

text \<open>
  Claim C3. With the dictionary \<open>{"cat"}\<close> and the query made of the patterns of
  \<open>c\<close>, \<open>a\<close>, \<open>t\<close> followed by any fourth pattern of width 6 over \<open>0\<close> and \<open>1\<close>,
  \<^verbatim>\<open>search\<close> returns a non-empty list whose first suggestion is
  \<^verbatim>\<open>{word: "cat", cost: 3}\<close>.
\<close>

theorem C3_trailing_insertion:
  assumes "is_pattern x"
  shows "search_default (build [''cat'']) (map (the \<circ> letterToPattern) ''cat'' @ [x]) \<noteq> []
       \<and> hd (search_default (build [''cat'']) (map (the \<circ> letterToPattern) ''cat'' @ [x]))
           = \<lparr>word = ''cat'', cost = 3\<rparr>"
  by (simp add: search_default_def search_eq patterns_cat emitted_cat_4 sort_by_cost_single
      slice0_nonneg)

text \<open>
  Claim C3 with the pattern of \<open>x\<close> as the fourth pattern.
\<close>

theorem C3_trailing_insertion_witness:
  "is_pattern ''101101''
   \<and> search_default (build [''cat'']) [''100100'', ''100000'', ''011110'', ''101101'']
       = [\<lparr>word = ''cat'', cost = 3\<rparr>]"
proof -
  have p: "is_pattern ''101101''"
    by (simp add: is_pattern_def)
  have one: "length (search_default (build [''cat'']) [''100100'', ''100000'', ''011110'', ''101101'']) = 1"
    by (simp add: search_default_def search_eq emitted_cat_4 sort_by_cost_single slice0_nonneg)
  from C3_trailing_insertion [OF p] one show ?thesis
    using p by (cases "search_default (build [''cat'']) [''100100'', ''100000'', ''011110'', ''101101'']")
      (simp_all add: patterns_cat)
qed

text \<open>
  Claim C4. With the dictionary \<open>{"cat"}\<close> and the query made of exactly the patterns of
  \<open>c\<close>, \<open>a\<close>, \<open>t\<close>, \<^verbatim>\<open>search\<close> returns the one-element list
  \<^verbatim>\<open>[{word: "cat", cost: 0}]\<close>.
\<close>

theorem C4_exact_match:
  "search_default (build [''cat'']) (map (the \<circ> letterToPattern) ''cat'')
     = [\<lparr>word = ''cat'', cost = 0\<rparr>]"
  by (simp add: search_default_def search_eq patterns_cat emitted_cat_3 sort_by_cost_single
      slice0_nonneg)

text \<open>
  Claim C5. For every trie, every query and every integer \<open>k \<ge> 0\<close> passed as
  \<^verbatim>\<open>maxSuggestions\<close>, the returned list has at most \<open>k\<close> elements, is sorted by
  non-decreasing cost, keeps records of equal cost in the order in which the traversal
  pushed them, and is a prefix of the full sorted list of the records of that query (which
  is what \<^verbatim>\<open>search\<close> returns when \<open>k\<close> is the number of records).
\<close>

theorem C5_ranking_truncation:
  assumes "0 \<le> k"
  shows "length (search T q k) \<le> nat k
       \<and> sorted (map cost (search T q k))
       \<and> (\<forall>c. prefix (filter (\<lambda>r. cost r = c) (search T q k))
                      (filter (\<lambda>r. cost r = c) (emitted T q)))
       \<and> prefix (search T q k) (sort_by_cost (emitted T q))
       \<and> (q \<noteq> [] \<longrightarrow> search T q (int (length (emitted T q))) = sort_by_cost (emitted T q))"
proof -
  let ?full = "sort_by_cost (emitted T q)"
  have sorted_full: "sorted (map cost ?full)"
    by (simp add: sort_by_cost_def)
  have stable: "filter (\<lambda>r. cost r = c) ?full = filter (\<lambda>r. cost r = c) (emitted T q)" for c
    by (simp add: sort_by_cost_def sort_key_stable)
  have res: "search T q k = (if q = [] then [] else take (nat k) ?full)"
    using assms by (simp add: search_eq slice0_nonneg)
  have pre: "prefix (search T q k) ?full"
    by (simp add: res take_is_prefix)
  have "length (search T q k) \<le> nat k"
    by (simp add: res)
  moreover have "sorted (map cost (search T q k))"
    using sorted_full by (simp add: res take_map [symmetric] sorted_wrt_take)
  moreover have "prefix (filter (\<lambda>r. cost r = c) (search T q k))
                   (filter (\<lambda>r. cost r = c) (emitted T q))" for c
    using filter_mono_prefix [OF pre, of "\<lambda>r. cost r = c"] by (simp add: stable)
  moreover have "q \<noteq> [] \<longrightarrow> search T q (int (length (emitted T q))) = ?full"
    by (simp add: search_all)
  ultimately show ?thesis
    using pre by blast
qed

text \<open>
  Claim C5 at the trie of \<open>a\<close> and \<open>b\<close>, the one-pattern query of \<open>a\<close> and \<open>k = 1\<close>.
\<close>

theorem C5_ranking_truncation_witness:
  "(0::int) \<le> 1 \<and> [''100000''] \<noteq> []
   \<and> search (build [''a'', ''b'']) [''100000''] 1 = [\<lparr>word = ''a'', cost = 0\<rparr>]
   \<and> length (search (build [''a'', ''b'']) [''100000''] 1) \<le> nat 1
   \<and> sorted (map cost (search (build [''a'', ''b'']) [''100000''] 1))
   \<and> prefix (search (build [''a'', ''b'']) [''100000''] 1)
        [\<lparr>word = ''a'', cost = 0\<rparr>, \<lparr>word = ''b'', cost = 1\<rparr>]"
  using C5_ranking_truncation [of 1 "build [''a'', ''b'']" "[''100000'']"]
  by (simp add: emitted_a_b sorted_a_b search_eq slice0_nonneg)

text \<open>
  Claim C6 fails for negative \<^verbatim>\<open>maxSuggestions\<close>: on the trie of \<open>a\<close> and \<open>b\<close> and the
  one-pattern query of \<open>a\<close>, \<^verbatim>\<open>search(query, -1)\<close> returns the record of \<open>a\<close>, since
  \<^verbatim>\<open>slice(0, -1)\<close> drops the last element only.
\<close>

theorem C6_counterexample:
  "search (build [''a'', ''b'']) [''100000''] (- 1) = [\<lparr>word = ''a'', cost = 0\<rparr>]
   \<and> search (build [''a'', ''b'']) [''100000''] (- 1) \<noteq> []"
  by (simp add: search_eq emitted_a_b sorted_a_b slice0_neg)

text \<open>
  Claim C6 as amended. With \<^verbatim>\<open>maxSuggestions = 0\<close>, \<^verbatim>\<open>search\<close> returns the empty list for
  every trie and every query. With a negative \<^verbatim>\<open>maxSuggestions = -m\<close> it returns the
  sorted list of records without its last \<open>m\<close> records (the empty list when the query is
  empty).
\<close>

theorem C6_nonpositive_limit:
  "search T q 0 = []
   \<and> (k < 0 \<longrightarrow>
        search T q k =
          (if q = [] then []
           else take (length (emitted T q) - nat (- k)) (sort_by_cost (emitted T q))))"
  by (simp add: search_eq slice0_nonneg slice0_neg sort_by_cost_def)

text \<open>
  Claim C6 as amended, at the trie of \<open>a\<close> and \<open>b\<close> and the one-pattern query of \<open>a\<close>.
\<close>

theorem C6_nonpositive_limit_witness:
  "(- 1 :: int) < 0
   \<and> search (build [''a'', ''b'']) [''100000''] 0 = []
   \<and> search (build [''a'', ''b'']) [''100000''] (- 1) = [\<lparr>word = ''a'', cost = 0\<rparr>]"
  using C6_nonpositive_limit [of "build [''a'', ''b'']" "[''100000'']" "- 1"]
  by (simp add: emitted_a_b sorted_a_b)

text \<open>
  Claim C7. A word with a symbol that has no pattern in \<^verbatim>\<open>letterToPattern\<close> is in the
  trie after \<^verbatim>\<open>insert\<close> (its path ends at a node marked end-of-word), and it is the
  word of no record that \<^verbatim>\<open>search\<close> returns, for any trie, query and
  \<^verbatim>\<open>maxSuggestions\<close>.
\<close>

theorem C7_unknown_symbol_pruned:
  assumes "c \<in> set w" and "letterToPattern c = None"
  shows "is_word (root (insert_word w T)) w \<and> w \<notin> word ` set (search T' q k)"
proof -
  have "\<not> known w"
    using assms by (auto simp: known_def list_all_iff)
  then have "w \<notin> word ` set (emitted T' q)"
    by (auto dest: known_emitted)
  with set_search [of T' q k] show ?thesis
    by (auto simp: is_word_insert_node)
qed

text \<open>
  Claim C7 at the word \<open>b1\<close>, whose symbol \<open>1\<close> has no pattern.
\<close>

theorem C7_unknown_symbol_pruned_witness:
  "CHR ''1'' \<in> set ''b1'' \<and> letterToPattern CHR ''1'' = None
   \<and> is_word (root (insert_word ''b1'' new_Trie)) ''b1''
   \<and> ''b1'' \<notin> word ` set (search (insert_word ''b1'' new_Trie) [''110000''] 5)"
proof -
  have h: "CHR ''1'' \<in> set ''b1''" "letterToPattern CHR ''1'' = None"
    by (simp_all add: letterToPattern_def letterToPattern_table_def)
  from C7_unknown_symbol_pruned [OF h, of new_Trie "insert_word ''b1'' new_Trie" "[''110000'']" 5] h
  show ?thesis
    by simp
qed

text \<open>
  Claim C8. Inserting a word a second time leaves the trie as it is after the first
  insertion, so every search returns the same list; and in a trie whose objects hold each
  key once the word is the word of at most one returned record.
\<close>

theorem C8_insert_idempotent:
  "insert_word w (insert_word w T) = insert_word w T
   \<and> search (insert_word w (insert_word w T)) q k = search (insert_word w T) q k
   \<and> (distinct_keys (root T) \<longrightarrow>
        length (filter (\<lambda>r. word r = w) (search (insert_word w (insert_word w T)) q k)) \<le> 1)"
proof -
  have "length (filter (\<lambda>r. word r = w) (search (insert_word w T) q k)) \<le> 1"
    if "distinct_keys (root T)"
  proof -
    from that have "distinct (map word (search (insert_word w T) q k))"
      by (simp add: distinct_words_search distinct_keys_insert_node)
    then show ?thesis
      by (rule at_most_once)
  qed
  then show ?thesis
    by (simp add: insert_word_twice)
qed

text \<open>
  Claim C8 at the word \<open>cat\<close> inserted twice into the empty trie, and the query of its
  three patterns.
\<close>

theorem C8_insert_idempotent_witness:
  "distinct_keys (root new_Trie)
   \<and> insert_word ''cat'' (insert_word ''cat'' new_Trie) = build [''cat'']
   \<and> search (insert_word ''cat'' (insert_word ''cat'' new_Trie)) [''100100'', ''100000'', ''011110''] 5
       = [\<lparr>word = ''cat'', cost = 0\<rparr>]
   \<and> length (filter (\<lambda>r. word r = ''cat'')
         (search (insert_word ''cat'' (insert_word ''cat'' new_Trie))
            [''100100'', ''100000'', ''011110''] 5)) \<le> 1"
proof -
  have b: "insert_word ''cat'' new_Trie = build [''cat'']"
    by (simp add: build_def)
  have s: "search (build [''cat'']) [''100100'', ''100000'', ''011110''] 5 = [\<lparr>word = ''cat'', cost = 0\<rparr>]"
    by (simp add: search_eq emitted_cat_3 sort_by_cost_single slice0_nonneg)
  from C8_insert_idempotent [of "''cat''" new_Trie "[''100100'', ''100000'', ''011110'']" 5] b s
  show ?thesis
    by (simp add: new_Trie_def)
qed

text \<open>
  Claim C9 fails: after \<^verbatim>\<open>insert("")\<close> on the empty trie, a search that returned nothing
  returns a record for the empty word.
\<close>

theorem C9_counterexample:
  "search (insert_word [] new_Trie) [''100000''] 5 = [\<lparr>word = [], cost = 3\<rparr>]
   \<and> search new_Trie [''100000''] 5 = []"
proof -
  have "emitted new_Trie [''100000''] = []"
    unfolding emitted_def
    by (subst search_node.simps) (simp add: new_Trie_def new_TrieNode_def entries_def)
  moreover from this have "emitted (insert_word [] new_Trie) [''100000''] = [\<lparr>word = [], cost = 3\<rparr>]"
    by (simp add: emitted_insert_Nil) (simp add: new_Trie_def new_TrieNode_def)
  ultimately show ?thesis
    by (simp add: search_eq sort_by_cost_def slice0_nonneg)
qed

text \<open>
  Claim C9 as amended. \<^verbatim>\<open>insert("")\<close> creates no node and leaves \<^verbatim>\<open>children\<close> of the
  root and \<^verbatim>\<open>deletionCost\<close> as they are; it marks the root end-of-word. When the root is
  already marked the trie is unchanged; when it is not, the traversal of every later
  search of \<open>n\<close> patterns pushes one more record, the empty word with cost
  \<open>n \<cdot> deletionCost\<close>, ahead of the records it pushed before.
\<close>

theorem C9_insert_empty_word:
  "children (root (insert_word [] T)) = children (root T)
   \<and> isEnd (root (insert_word [] T))
   \<and> deletionCost (insert_word [] T) = deletionCost T
   \<and> (isEnd (root T) \<longrightarrow> insert_word [] T = T)
   \<and> (\<not> isEnd (root T) \<longrightarrow>
        emitted (insert_word [] T) q
          = \<lparr>word = [], cost = int (length q) * deletionCost T\<rparr> # emitted T q)"
proof -
  have "TrieNode (children (root T)) True = root T" if "isEnd (root T)"
    using that by (cases "root T") simp
  then have "isEnd (root T) \<longrightarrow> insert_word [] T = T"
    by (simp add: insert_word_def)
  then show ?thesis
    by (simp add: emitted_insert_Nil)
qed

text \<open>
  Claim C9 as amended, at the empty trie and the one-pattern query of \<open>a\<close>; a second
  \<^verbatim>\<open>insert("")\<close> changes nothing.
\<close>

theorem C9_insert_empty_word_witness:
  "\<not> isEnd (root new_Trie)
   \<and> emitted (insert_word [] new_Trie) [''100000'']
       = \<lparr>word = [], cost = 3\<rparr> # emitted new_Trie [''100000'']
   \<and> isEnd (root (insert_word [] new_Trie))
   \<and> insert_word [] (insert_word [] new_Trie) = insert_word [] new_Trie"
proof -
  have h: "\<not> isEnd (root new_Trie)" "deletionCost new_Trie = 3"
    by (simp_all add: new_Trie_def new_TrieNode_def)
  from C9_insert_empty_word [of new_Trie "[''100000'']"]
    C9_insert_empty_word [of "insert_word [] new_Trie" "[''100000'']"] h
  show ?thesis
    by simp
qed

text \<open>
  Claim C10. For a trie built by \<^verbatim>\<open>insert\<close> calls from the empty trie, a non-empty
  query and \<^verbatim>\<open>maxSuggestions\<close> at least the number of records pushed, the words of the
  returned records are exactly the inserted words all of whose symbols have a pattern,
  and no word is returned twice.
\<close>

theorem C10_sound_complete:
  assumes "q \<noteq> []" and "int (length (emitted (build ws) q)) \<le> k"
  shows "word ` set (search (build ws) q k) = {w \<in> set ws. known w}
       \<and> distinct (map word (search (build ws) q k))"
proof -
  have "search (build ws) q k = sort_by_cost (emitted (build ws) q)"
    using assms by (rule search_all)
  then have "word ` set (search (build ws) q k) = word ` set (emitted (build ws) q)"
    by (simp add: sort_by_cost_def)
  also have "\<dots> = {w \<in> set ws. known w}"
    by (auto simp: words_emitted)
  finally show ?thesis
    by (simp add: distinct_words_search)
qed

text \<open>
  Claim C10 at the trie of \<open>a\<close> and \<open>b\<close> and the one-pattern query of \<open>a\<close>.
\<close>

theorem C10_sound_complete_witness:
  "[''100000''] \<noteq> []
   \<and> int (length (emitted (build [''a'', ''b'']) [''100000''])) \<le> 5
   \<and> word ` set (search (build [''a'', ''b'']) [''100000''] 5) = {''a'', ''b''}
   \<and> {w \<in> set [''a'', ''b'']. known w} = {''a'', ''b''}"
proof -
  have h: "[''100000''] \<noteq> []" "int (length (emitted (build [''a'', ''b'']) [''100000''])) \<le> 5"
    by (simp_all add: emitted_a_b)
  have s: "search (build [''a'', ''b'']) [''100000''] 5
             = [\<lparr>word = ''a'', cost = 0\<rparr>, \<lparr>word = ''b'', cost = 1\<rparr>]"
    by (simp add: search_eq emitted_a_b sorted_a_b slice0_nonneg)
  from C10_sound_complete [OF h] h s show ?thesis
    by simp
qed

end
